theory Spec2Isabelle
  imports Complex_Main "HOL-Library.AList" "HOL-Library.Sublist"
begin

section \<open>Values, objects and the store\<close>

text \<open>
  The library works on JavaScript values. A value is a primitive or a reference to an
  object of the store; two references are strictly equal exactly when they are the same
  address, so reference identity is equality of \<open>Ref\<close> values. Numbers that occur as
  values are integers here; numeric path keys are non-negative integers. An object of the
  store is an array (its elements, dense) or a plain object (its own properties in
  insertion order). Inherited properties and named properties of arrays other than
  \<open>length\<close> are not part of the model. A numeric key is written in decimal when it names
  a property, and a string of digits converts to the number it writes, as the runtime
  does for the integers it represents exactly.

  The store is a list of objects, an address is a position in it, and allocation appends.
  Reading an address outside the store gives an empty object; the properties that
  depend on every reference being to an object of the store assume the store closed.
\<close>

type_synonym addr = nat

datatype val = Undefined | Null | Bool bool | Num int | Str string | Ref addr

datatype obj = Arr "val list" | Obj "(string \<times> val) list"

type_synonym heap = "obj list"

datatype key = KStr string | KNum nat

datatype seg = Key key | Group "key list"

datatype error = ShapeMismatch | TypeError

text \<open>
  The result of converting a string to a number, which JavaScript does when a string key
  is compared with an array length or passed to \<open>slice\<close>. The conversion itself belongs
  to the language runtime; the functions below take it as the parameter \<open>tn\<close>.
\<close>

datatype jsnum = NaN | NegInf | Fin real | PosInf

definition alloc :: "heap \<Rightarrow> obj \<Rightarrow> val \<times> heap" where
  "alloc h ob = (Ref (length h), h @ [ob])"

text \<open>Returning a newly allocated object from a function that may throw.\<close>

definition return_new :: "heap \<Rightarrow> obj \<Rightarrow> (error + val) \<times> heap" where
  "return_new h ob = (Inr (Ref (length h)), h @ [ob])"

definition deref :: "heap \<Rightarrow> addr \<Rightarrow> obj" where
  "deref h a = (if a < length h then h ! a else Obj [])"

text \<open>Truthiness, as used by \<open>!base\<close> and \<open>||\<close>.\<close>

fun truthy :: "val \<Rightarrow> bool" where
  "truthy Undefined = False"
| "truthy Null = False"
| "truthy (Bool b) = b"
| "truthy (Num n) = (n \<noteq> 0)"
| "truthy (Str s) = (s \<noteq> [])"
| "truthy (Ref a) = True"


text \<open>\<open>Array.isArray\<close>.\<close>

fun isArray :: "heap \<Rightarrow> val \<Rightarrow> bool" where
  "isArray h (Ref a) = (case deref h a of Arr xs \<Rightarrow> True | Obj ps \<Rightarrow> False)"
| "isArray h v = False"

subsection \<open>Property names\<close>

definition digit_chars :: string where
  "digit_chars = ''0123456789''"

fun string_of_nat :: "nat \<Rightarrow> string" where
  "string_of_nat n =
     (if n < 10 then [digit_chars ! n]
      else string_of_nat (n div 10) @ [digit_chars ! (n mod 10)])"

declare string_of_nat.simps [simp del]

definition is_digit :: "char \<Rightarrow> bool" where
  "is_digit c = (c \<in> set digit_chars)"

definition digit_val :: "char \<Rightarrow> nat" where
  "digit_val c = (of_char c) - 48"

text \<open>\<open>Number(s)\<close> for a string of decimal digits; the empty string converts to 0.\<close>

definition nat_of_digits :: "string \<Rightarrow> nat" where
  "nat_of_digits s = foldl (\<lambda>n c. 10 * n + digit_val c) 0 s"

text \<open>The property name a key denotes: a number is written in decimal.\<close>

fun prop_name :: "key \<Rightarrow> string" where
  "prop_name (KStr s) = s"
| "prop_name (KNum n) = string_of_nat n"



text \<open>
  The array index a key denotes, if any: a number, or a string that is the canonical
  decimal form of one (no leading zero).
\<close>

fun array_index :: "key \<Rightarrow> nat option" where
  "array_index (KNum n) = Some n"
| "array_index (KStr s) =
     (if s \<noteq> [] \<and> list_all is_digit s \<and> (s = ''0'' \<or> hd s \<noteq> CHR ''0'')
      then Some (nat_of_digits s) else None)"

fun join_names :: "string list \<Rightarrow> string" where
  "join_names [] = []"
| "join_names [s] = s"
| "join_names (s # t # ss) = s @ '','' @ join_names (t # ss)"

text \<open>
  A path segment used as a property name, as \<open>recursiveEqual\<close> does with \<open>base[key]\<close>:
  an array of keys converts to its elements joined by commas.
\<close>

fun seg_key :: "seg \<Rightarrow> key" where
  "seg_key (Key k) = k"
| "seg_key (Group ks) = KStr (join_names (map prop_name ks))"

subsection \<open>Reading properties\<close>

text \<open>\<open>o[key]\<close> for the object at address \<open>a\<close>.\<close>

definition get_prop :: "heap \<Rightarrow> addr \<Rightarrow> key \<Rightarrow> val" where
  "get_prop h a k =
     (case deref h a of
        Obj ps \<Rightarrow> (case map_of ps (prop_name k) of Some v \<Rightarrow> v | None \<Rightarrow> Undefined)
      | Arr xs \<Rightarrow>
          (case array_index k of
             Some n \<Rightarrow> (if n < length xs then xs ! n else Undefined)
           | None \<Rightarrow> (if k = KStr ''length'' then Num (int (length xs)) else Undefined)))"

text \<open>
  \<open>v[key]\<close> for any value: reading a property of \<open>undefined\<close> or \<open>null\<close> throws a
  TypeError, a string has its characters and its length, a number or a boolean has no
  own property.
\<close>

fun get_member :: "heap \<Rightarrow> val \<Rightarrow> key \<Rightarrow> error + val" where
  "get_member h Undefined k = Inl TypeError"
| "get_member h Null k = Inl TypeError"
| "get_member h (Bool b) k = Inr Undefined"
| "get_member h (Num n) k = Inr Undefined"
| "get_member h (Str s) k =
     (case array_index k of
        Some n \<Rightarrow> Inr (if n < length s then Str [s ! n] else Undefined)
      | None \<Rightarrow> Inr (if k = KStr ''length'' then Num (int (length s)) else Undefined))"
| "get_member h (Ref a) k = Inr (get_prop h a k)"

subsection \<open>Array operations with converted indices\<close>

definition trunc :: "real \<Rightarrow> int" where
  "trunc r = (if 0 \<le> r then \<lfloor>r\<rfloor> else \<lceil>r\<rceil>)"

text \<open>The relative index \<open>slice\<close> computes from a number, for an array of length \<open>len\<close>.\<close>

fun slice_index :: "nat \<Rightarrow> jsnum \<Rightarrow> nat" where
  "slice_index len NaN = 0"
| "slice_index len NegInf = 0"
| "slice_index len PosInf = len"
| "slice_index len (Fin r) =
     (if trunc r < 0 then nat (int len + trunc r) else min (nat (trunc r)) len)"

text \<open>\<open>key < n\<close> for a number \<open>n\<close>, after the key is converted to a number.\<close>

fun num_less :: "jsnum \<Rightarrow> nat \<Rightarrow> bool" where
  "num_less NaN n = False"
| "num_less NegInf n = True"
| "num_less PosInf n = False"
| "num_less (Fin r) n = (r < real n)"

text \<open>The number a key converts to, and the number \<open>key + 1\<close> converts to.\<close>

fun key_num :: "(string \<Rightarrow> jsnum) \<Rightarrow> key \<Rightarrow> jsnum" where
  "key_num tn (KNum n) = Fin (real n)"
| "key_num tn (KStr s) = tn s"

fun key_plus_one :: "(string \<Rightarrow> jsnum) \<Rightarrow> key \<Rightarrow> jsnum" where
  "key_plus_one tn (KNum n) = Fin (real (n + 1))"
| "key_plus_one tn (KStr s) = tn (s @ ''1'')"

text \<open>\<open>xs.slice(0, key)\<close> and \<open>xs.slice(key + 1)\<close>.\<close>

definition slice_to :: "(string \<Rightarrow> jsnum) \<Rightarrow> val list \<Rightarrow> key \<Rightarrow> val list" where
  "slice_to tn xs k = take (slice_index (length xs) (key_num tn k)) xs"

definition slice_from :: "(string \<Rightarrow> jsnum) \<Rightarrow> val list \<Rightarrow> key \<Rightarrow> val list" where
  "slice_from tn xs k = drop (slice_index (length xs) (key_plus_one tn k)) xs"

section \<open>The container factory\<close>

text \<open>
  \<^verbatim>\<open>nextBase = (base, key, nextKey, withArrays) =>
    base[key] || (withArrays && typeof nextKey === 'number' ? [] : {})\<close>

  The setter applies it to its current level only, which is an object of the store, so
  \<open>base\<close> is an address. \<open>nextKey\<close> is the second segment of the path, \<open>None\<close> when the
  path has no second segment. A new container is allocated when \<open>base[key]\<close> is falsy.
\<close>

fun is_number_seg :: "seg option \<Rightarrow> bool" where
  "is_number_seg (Some (Key (KNum n))) = True"
| "is_number_seg s = False"

definition nextBase :: "heap \<Rightarrow> addr \<Rightarrow> key \<Rightarrow> seg option \<Rightarrow> bool \<Rightarrow> val \<times> heap" where
  "nextBase h base key nextKey withArrays =
     (if truthy (get_prop h base key) then (get_prop h base key, h)
      else alloc h (if withArrays \<and> is_number_seg nextKey then Arr [] else Obj []))"

section \<open>The batch reducers\<close>

text \<open>
  \<open>keys.reduce(callback, accumulator)\<close> where the callback updates the accumulator
  object in place and returns it: the accumulator is one address throughout, the
  callback receives the key and its index and changes the store, and an exception
  thrown by the callback ends the loop.
\<close>

fun reduce_keys ::
  "(key \<Rightarrow> nat \<Rightarrow> heap \<Rightarrow> error option \<times> heap) \<Rightarrow> key list \<Rightarrow> nat \<Rightarrow> heap \<Rightarrow> error option \<times> heap"
where
  "reduce_keys f [] index h = (None, h)"
| "reduce_keys f (key # keys) index h =
     (case f key index h of
        (Some e, h') \<Rightarrow> (Some e, h')
      | (None, h') \<Rightarrow> reduce_keys f keys (Suc index) h')"

text \<open>
  \<^verbatim>\<open>if (key < acc.length) { acc[key] = newValue; } else { acc.push(newValue); }\<close>
  on the array at address \<open>acc\<close>. A string key that is not an array index would create
  a named property of the array, which the model does not hold.
\<close>

definition array_store :: "(string \<Rightarrow> jsnum) \<Rightarrow> heap \<Rightarrow> addr \<Rightarrow> key \<Rightarrow> val \<Rightarrow> heap" where
  "array_store tn h acc key newValue =
     (case deref h acc of
        Arr xs \<Rightarrow>
          (if num_less (key_num tn key) (length xs)
           then (case array_index key of
                   Some n \<Rightarrow> h[acc := Arr (xs[n := newValue])]
                 | None \<Rightarrow> h)
           else h[acc := Arr (xs @ [newValue])])
      | Obj ps \<Rightarrow> h)"

text \<open>
  \<^verbatim>\<open>acc[key] = newValue\<close> on the plain object at address \<open>acc\<close>, an accumulator of
  \<open>reduceWithObject\<close>. Under the name \<open>__proto__\<close> the assignment goes to the accessor
  that the object inherits: it sets the prototype of the accumulator, or does nothing
  when the value is no object, and creates no property. The accumulator is read only by
  the spread of its own properties, so the store, which holds no prototypes, is left as
  it is.
\<close>

definition object_store :: "heap \<Rightarrow> addr \<Rightarrow> key \<Rightarrow> val \<Rightarrow> heap" where
  "object_store h acc key newValue =
     (case deref h acc of
        Obj ps \<Rightarrow>
          (if prop_name key = ''__proto__'' then h
           else h[acc := Obj (AList.update (prop_name key) newValue ps)])
      | Arr xs \<Rightarrow> h)"

type_synonym setter = "heap \<Rightarrow> val \<Rightarrow> seg list \<Rightarrow> val \<Rightarrow> bool \<Rightarrow> (error + val) \<times> heap"

text \<open>
  \<open>reduceWithArray(setFunction)\<close>: the values must be an array, else the error is
  thrown before anything else happens. Each key's new value is computed by
  \<open>setFunction\<close> on the rest of the path and stored in the accumulator, which the caller
  allocated as a copy of the current level.
\<close>

definition reduceWithArray ::
  "setter \<Rightarrow> (string \<Rightarrow> jsnum) \<Rightarrow> heap \<Rightarrow> addr \<Rightarrow> seg list \<Rightarrow> key list \<Rightarrow> seg option \<Rightarrow> val \<Rightarrow> bool
     \<Rightarrow> addr \<Rightarrow> (error + val) \<times> heap"
where
  "reduceWithArray setFunction tn h base path keys nextKey values withArrays accumulator =
     (if \<not> isArray h values then (Inl ShapeMismatch, h)
      else
        case reduce_keys
               (\<lambda>key index h.
                  let (nb, h1) = nextBase h base key nextKey withArrays in
                  case get_member h1 values (KNum index) of
                    Inl e \<Rightarrow> (Some e, h1)
                  | Inr v \<Rightarrow>
                      (case setFunction h1 nb (tl path) v withArrays of
                         (Inl e, h2) \<Rightarrow> (Some e, h2)
                       | (Inr newValue, h2) \<Rightarrow>
                           (None, array_store tn h2 accumulator key newValue)))
               keys 0 h
        of
          (Some e, h') \<Rightarrow> (Inl e, h')
        | (None, h') \<Rightarrow> (Inr (Ref accumulator), h'))"

text \<open>
  \<open>reduceWithObject(fn)\<close>: the accumulator is a new empty object. Array values are
  matched to the keys by position, any other values by key; reading \<open>values[key]\<close>
  throws when the values are \<open>undefined\<close> or \<open>null\<close>.
\<close>

definition reduceWithObject ::
  "setter \<Rightarrow> heap \<Rightarrow> addr \<Rightarrow> seg list \<Rightarrow> key list \<Rightarrow> seg option \<Rightarrow> val \<Rightarrow> bool
     \<Rightarrow> (error + val) \<times> heap"
where
  "reduceWithObject fn h base path keys nextKey values withArrays =
     (if isArray h values then
        (let (acc, h0) = (length h, h @ [Obj []]) in
         case reduce_keys
                (\<lambda>key index h.
                   let (nb, h1) = nextBase h base key nextKey withArrays in
                   case get_member h1 values (KNum index) of
                     Inl e \<Rightarrow> (Some e, h1)
                   | Inr v \<Rightarrow>
                       (case fn h1 nb (tl path) v withArrays of
                          (Inl e, h2) \<Rightarrow> (Some e, h2)
                        | (Inr newValue, h2) \<Rightarrow> (None, object_store h2 acc key newValue)))
                keys 0 h0
         of
           (Some e, h') \<Rightarrow> (Inl e, h')
         | (None, h') \<Rightarrow> (Inr (Ref acc), h'))
      else
        (let (acc, h0) = (length h, h @ [Obj []]) in
         case reduce_keys
                (\<lambda>key index h.
                   let (nb, h1) = nextBase h base key nextKey withArrays in
                   case get_member h1 values key of
                     Inl e \<Rightarrow> (Some e, h1)
                   | Inr v \<Rightarrow>
                       (case fn h1 nb (tl path) v withArrays of
                          (Inl e, h2) \<Rightarrow> (Some e, h2)
                        | (Inr newValue, h2) \<Rightarrow> (None, object_store h2 acc key newValue)))
                keys 0 h0
         of
           (Some e, h') \<Rightarrow> (Inl e, h')
         | (None, h') \<Rightarrow> (Inr (Ref acc), h')))"

lemma reduceWithArray_cong [fundef_cong]:
  assumes "h = h'" "base = base'" "path = path'" "keys = keys'" "nextKey = nextKey'"
    "values = values'" "withArrays = withArrays'" "accumulator = accumulator'" "tn = tn'"
    "\<And>h1 nb v. f h1 nb (tl path') v withArrays' = g h1 nb (tl path') v withArrays'"
  shows "reduceWithArray f tn h base path keys nextKey values withArrays accumulator
       = reduceWithArray g tn' h' base' path' keys' nextKey' values' withArrays' accumulator'"
  unfolding reduceWithArray_def assms(1-9) assms(10) by (rule refl)

lemma reduceWithObject_cong [fundef_cong]:
  assumes "h = h'" "base = base'" "path = path'" "keys = keys'" "nextKey = nextKey'"
    "values = values'" "withArrays = withArrays'"
    "\<And>h1 nb v. f h1 nb (tl path') v withArrays' = g h1 nb (tl path') v withArrays'"
  shows "reduceWithObject f h base path keys nextKey values withArrays
       = reduceWithObject g h' base' path' keys' nextKey' values' withArrays'"
  unfolding reduceWithObject_def assms(1-7) assms(8) by (rule refl)

section \<open>The recursive setter\<close>

text \<open>
  The level the setter works on, lines 111 to 115 of the source: \<open>base\<close> itself when it
  is an object, else a new empty container, an array when the segment is a group whose
  first key is a number or when \<open>withArrays\<close> is set and the segment is a number.
\<close>

fun first_is_number :: "seg \<Rightarrow> bool" where
  "first_is_number (Group (KNum n # ks)) = True"
| "first_is_number s = False"

fun current_base :: "heap \<Rightarrow> val \<Rightarrow> seg \<Rightarrow> bool \<Rightarrow> addr \<times> heap" where
  "current_base h (Ref a) key withArrays = (a, h)"
| "current_base h base key withArrays =
     (length h,
      h @ [if first_is_number key \<or> (withArrays \<and> is_number_seg (Some key))
           then Arr [] else Obj []])"

definition elems :: "heap \<Rightarrow> addr \<Rightarrow> val list" where
  "elems h a = (case deref h a of Arr xs \<Rightarrow> xs | Obj ps \<Rightarrow> [])"

definition props :: "heap \<Rightarrow> addr \<Rightarrow> (string \<times> val) list" where
  "props h a = (case deref h a of Obj ps \<Rightarrow> ps | Arr xs \<Rightarrow> [])"

text \<open>\<open>{...a, ...b}\<close>: the properties of \<open>b\<close> are assigned over a copy of those of \<open>a\<close>.\<close>

definition spread_over :: "(string \<times> val) list \<Rightarrow> (string \<times> val) list \<Rightarrow> (string \<times> val) list" where
  "spread_over ps qs = foldl (\<lambda>acc (n, v). AList.update n v acc) ps qs"

fun next_key :: "seg list \<Rightarrow> seg option" where
  "next_key [] = None"
| "next_key (s # ss) = Some s"

text \<open>
  \<open>set(base, path, value, withArrays)\<close>. An array or object literal of the source is
  allocated here once its elements are known; the reads of the current level happen
  where the source has them (\<open>slice(key + 1)\<close> after the recursive call). The seventh
  argument the source passes to \<open>reduceWithObject(set)\<close> is not a parameter of that
  function and is left out.
\<close>

function set_rec ::
  "(string \<Rightarrow> jsnum) \<Rightarrow> heap \<Rightarrow> val \<Rightarrow> seg list \<Rightarrow> val \<Rightarrow> bool \<Rightarrow> (error + val) \<times> heap"
where
  "set_rec tn h base [] value withArrays = (Inr value, h)"
| "set_rec tn h base (key # rest) value withArrays =
     (let nextKey = next_key rest;
          (currentBase, h0) = current_base h base key withArrays
      in
        case key of
          Group keys \<Rightarrow>
           (if isArray h0 (Ref currentBase) then
              let (accumulator, h1) = (length h0, h0 @ [Arr (elems h0 currentBase)]) in
              reduceWithArray (\<lambda>h b p v w. set_rec tn h b p v w) tn h1 currentBase (key # rest)
                keys nextKey value withArrays accumulator
            else
              let copied = props h0 currentBase in
              (case reduceWithObject (\<lambda>h b p v w. set_rec tn h b p v w) h0 currentBase
                      (key # rest) keys nextKey value withArrays of
                 (Inl e, h2) \<Rightarrow> (Inl e, h2)
               | (Inr r, h2) \<Rightarrow>
                   return_new h2 (Obj (spread_over copied
                                    (case r of Ref a \<Rightarrow> props h2 a | _ \<Rightarrow> [])))))
        | Key k \<Rightarrow>
            if isArray h0 (Ref currentBase) then
              let before = slice_to tn (elems h0 currentBase) k;
                  (nb, h1) = nextBase h0 currentBase k nextKey withArrays
              in
                (case set_rec tn h1 nb rest value withArrays of
                   (Inl e, h2) \<Rightarrow> (Inl e, h2)
                 | (Inr v, h2) \<Rightarrow>
                     return_new h2 (Arr (before @ [v] @ slice_from tn (elems h2 currentBase) k)))
            else
              let copied = props h0 currentBase;
                  (nb, h1) = nextBase h0 currentBase k nextKey withArrays
              in
                (case set_rec tn h1 nb rest value withArrays of
                   (Inl e, h2) \<Rightarrow> (Inl e, h2)
                 | (Inr v, h2) \<Rightarrow> return_new h2 (Obj (AList.update (prop_name k) v copied))))"
  by pat_completeness auto
termination
  by (relation "measure (\<lambda>(tn, h, base, path, value, withArrays). length path)") auto

declare set_rec.simps [simp del]

text \<open>
  The level a path of single keys leads to: the value, and the store, with which the
  setter is called on the rest of the path after it has gone through the keys \<open>ks\<close>,
  each time taking \<open>nextBase\<close> of its current level as the source does.
\<close>

fun descend :: "heap \<Rightarrow> val \<Rightarrow> key list \<Rightarrow> seg list \<Rightarrow> bool \<Rightarrow> val \<times> heap" where
  "descend h base [] rest withArrays = (base, h)"
| "descend h base (k # ks) rest withArrays =
     (let (currentBase, h0) = current_base h base (Key k) withArrays;
          (nb, h1) = nextBase h0 currentBase k (next_key (map Key ks @ rest)) withArrays
      in descend h1 nb ks rest withArrays)"







section \<open>The equality pre-check\<close>

text \<open>
  \<open>recursiveEqual(base, path, value, equality)\<close>. The test \<open>nextKey === undefined\<close>
  holds when the path has no second segment. With an empty path \<open>key\<close> is \<open>undefined\<close>,
  which names the property \<open>"undefined"\<close>. The comparison supplied by the caller is a
  function of the store and two values; it is assumed to change nothing.
\<close>

fun recursiveEqual ::
  "heap \<Rightarrow> val \<Rightarrow> seg list \<Rightarrow> val \<Rightarrow> (heap \<Rightarrow> val \<Rightarrow> val \<Rightarrow> bool) option \<Rightarrow> bool"
where
  "recursiveEqual h (Ref a) (key # nextKey # rest) value equality =
     recursiveEqual h (get_prop h a (seg_key key)) (nextKey # rest) value equality"
| "recursiveEqual h (Ref a) [key] value equality =
     (case equality of
        Some eq \<Rightarrow> eq h (get_prop h a (seg_key key)) value
      | None \<Rightarrow> get_prop h a (seg_key key) = value)"
| "recursiveEqual h (Ref a) [] value equality =
     (case equality of
        Some eq \<Rightarrow> eq h (get_prop h a (KStr ''undefined'')) value
      | None \<Rightarrow> get_prop h a (KStr ''undefined'') = value)"
| "recursiveEqual h base path value equality = False"

section \<open>The path parser\<close>

text \<open>\<open>s.split('.')\<close>: the pieces between the dots, at least one.\<close>

fun split_dots :: "string \<Rightarrow> string list" where
  "split_dots [] = [[]]"
| "split_dots (c # cs) =
     (if c = CHR ''.'' then [] # split_dots cs
      else (case split_dots cs of t # ts \<Rightarrow> (c # t) # ts | [] \<Rightarrow> [[c]]))"

text \<open>
  The pattern \<^verbatim>\<open>\[([0-9]*)\]\<close> tried at the character after an opening bracket: the
  longest run of digits must be followed by a closing bracket. The result is the run.
\<close>

definition match_bracket :: "string \<Rightarrow> string option" where
  "match_bracket s =
     (case dropWhile is_digit s of
        c # cs \<Rightarrow> (if c = CHR '']'' then Some (takeWhile is_digit s) else None)
      | [] \<Rightarrow> None)"

text \<open>
  \<^verbatim>\<open>/\[([0-9]*)\]/.exec(key)\<close>: the leftmost match, as the position where it starts
  (\<open>groupe.index\<close>) and the digits between the brackets (\<open>groupe[1]\<close>).
\<close>

fun regex_exec :: "string \<Rightarrow> (nat \<times> string) option" where
  "regex_exec [] = None"
| "regex_exec (c # cs) =
     (case (if c = CHR ''['' then match_bracket cs else None) of
        Some ds \<Rightarrow> Some (0, ds)
      | None \<Rightarrow> map_option (\<lambda>(i, ds). (Suc i, ds)) (regex_exec cs))"

text \<open>The callback of the \<open>reduce\<close> over the pieces: what one piece pushes.\<close>

definition parse_token :: "string \<Rightarrow> seg list" where
  "parse_token key =
     (case regex_exec key of
        Some (index, digits) \<Rightarrow> [Key (KStr (take index key)), Key (KNum (nat_of_digits digits))]
      | None \<Rightarrow> [Key (KStr key)])"

definition parse_path :: "string \<Rightarrow> seg list" where
  "parse_path s = concat (map parse_token (split_dots s))"

section \<open>The entry point\<close>

text \<open>
  The path argument is a string, an array of segments, or anything else. The options are
  \<open>withArrays\<close> (default false), \<open>equality\<close> (default absent) and \<open>safe\<close> (default
  absent, which is falsy).
\<close>

datatype path_arg = PString string | PArray "seg list" | POther

record options =
  withArrays :: bool
  equality :: "(heap \<Rightarrow> val \<Rightarrow> val \<Rightarrow> bool) option"
  safe :: bool

definition default_options :: options where
  "default_options = \<lparr> withArrays = False, equality = None, safe = False \<rparr>"

text \<open>Lines 152 to 168: the path after a non-empty string has been parsed.\<close>

fun normalize_path :: "path_arg \<Rightarrow> path_arg" where
  "normalize_path (PString s) = (if length s > 0 then PArray (parse_path s) else PString s)"
| "normalize_path p = p"

definition safeSet ::
  "(string \<Rightarrow> jsnum) \<Rightarrow> heap \<Rightarrow> val \<Rightarrow> path_arg \<Rightarrow> val \<Rightarrow> options \<Rightarrow> (error + val) \<times> heap"
where
  "safeSet tn h base initialPath value opts =
     (case normalize_path initialPath of
        PArray path \<Rightarrow>
          (if length path < 1 then (Inr (if base = value then base else value), h)
           else if safe opts \<and> recursiveEqual h base path value (equality opts) then (Inr base, h)
           else set_rec tn h base path value (withArrays opts))
      | _ \<Rightarrow> (Inr (if base = value then base else value), h))"

section \<open>Observations on the store\<close>

text \<open>
  What the properties below are stated with. \<open>same_upto n h h'\<close>: the store \<open>h'\<close> is at
  least as long as \<open>h\<close> and holds the same objects at the first \<open>n\<close> addresses.
\<close>
definition same_upto :: "nat \<Rightarrow> heap \<Rightarrow> heap \<Rightarrow> bool" where
  "same_upto n h h' = (n \<le> length h \<and> length h \<le> length h' \<and> (\<forall>a<n. h' ! a = h ! a))"

text \<open>
  The structure a value denotes in a store, read to depth \<open>n\<close>: two values are deeply
  equal to that depth when their snapshots are equal. A store is closed when every
  reference in it is to one of its objects, as every store of a running program is.
\<close>
datatype tree = TUndefined | TNull | TBool bool | TNum int | TStr string
  | TArr "tree list" | TObj "(string \<times> tree) list" | TCut

fun snapshot :: "nat \<Rightarrow> heap \<Rightarrow> val \<Rightarrow> tree" where
  "snapshot n h Undefined = TUndefined"
| "snapshot n h Null = TNull"
| "snapshot n h (Bool b) = TBool b"
| "snapshot n h (Num i) = TNum i"
| "snapshot n h (Str s) = TStr s"
| "snapshot 0 h (Ref a) = TCut"
| "snapshot (Suc n) h (Ref a) =
     (case deref h a of
        Arr xs \<Rightarrow> TArr (map (snapshot n h) xs)
      | Obj ps \<Rightarrow> TObj (map (\<lambda>p. (fst p, snapshot n h (snd p))) ps))"

fun ref_ok :: "heap \<Rightarrow> val \<Rightarrow> bool" where
  "ref_ok h (Ref a) = (a < length h)"
| "ref_ok h v = True"

fun obj_vals :: "obj \<Rightarrow> val list" where
  "obj_vals (Arr xs) = xs"
| "obj_vals (Obj ps) = map snd ps"

definition closed_store :: "heap \<Rightarrow> bool" where
  "closed_store h = list_all (\<lambda>ob. list_all (ref_ok h) (obj_vals ob)) h"

text \<open>
  An instance of the runtime's conversion of strings to numbers for the examples: exact
  on strings of decimal digits and on strings that are no numeric literal; signs,
  fractions, exponents, radix prefixes, surrounding white space and \<open>Infinity\<close> are not
  recognised.
\<close>

definition decimal_to_number :: "string \<Rightarrow> jsnum" where
  "decimal_to_number s = (if list_all is_digit s then Fin (real (nat_of_digits s)) else NaN)"

text \<open>
  The outcome of a call as a structure: the error, or the snapshot of the value returned.
\<close>

fun result_tree :: "nat \<Rightarrow> (error + val) \<times> heap \<Rightarrow> error + tree" where
  "result_tree n (Inl e, h) = Inl e"
| "result_tree n (Inr v, h) = Inr (snapshot n h v)"

text \<open>
  The append-or-replace loop of \<open>reduceWithArray\<close> on a list: each key, with its value,
  replaces the element at that index when the index is below the current length and is
  appended otherwise. \<open>positional vs i m\<close> are the values \<open>values[i]\<close>, ...,
  \<open>values[i + m - 1]\<close>, \<open>undefined\<close> past the end.
\<close>

fun store_all :: "val list \<Rightarrow> (nat \<times> val) list \<Rightarrow> val list" where
  "store_all acc [] = acc"
| "store_all acc ((n, v) # rest) =
     store_all (if n < length acc then acc[n := v] else acc @ [v]) rest"

definition positional :: "val list \<Rightarrow> nat \<Rightarrow> nat \<Rightarrow> val list" where
  "positional vs i m = map (\<lambda>j. if j < length vs then vs ! j else Undefined) [i..<i + m]"

text \<open>
  The arguments of a call of the setter and of the pre-check, and the path among them.
\<close>

type_synonym set_args = "(string \<Rightarrow> jsnum) \<times> heap \<times> val \<times> seg list \<times> val \<times> bool"

type_synonym equal_args = "heap \<times> val \<times> seg list \<times> val \<times> (heap \<Rightarrow> val \<Rightarrow> val \<Rightarrow> bool) option"

definition set_path :: "set_args \<Rightarrow> seg list" where
  "set_path x = fst (snd (snd (snd x)))"

definition equal_path :: "equal_args \<Rightarrow> seg list" where
  "equal_path x = fst (snd (snd x))"

text \<open>The values whose properties cannot be read.\<close>

fun nullish :: "val \<Rightarrow> bool" where
  "nullish Undefined = True"
| "nullish Null = True"
| "nullish v = False"






text \<open>
  The recursive calls of the setter. A call is a store, a base, a path and a value;
  \<open>set_calls tn wa c c'\<close> holds when the call \<open>c\<close> makes the call \<open>c'\<close>. At a single key
  this is the one call of line 131 or 138. At a group it is the call of line 53, or of
  line 83 or 90, for the key at any position \<open>i\<close> of the group that the loop gets to:
  the reducer has run over the keys before it without a failure, which gives the store
  at that iteration, and the value at that position, or under that key, has been read
  without a failure.
\<close>

type_synonym call = "heap \<times> val \<times> seg list \<times> val"

inductive set_calls :: "(string \<Rightarrow> jsnum) \<Rightarrow> bool \<Rightarrow> call \<Rightarrow> call \<Rightarrow> bool"
  for tn :: "string \<Rightarrow> jsnum" and wa :: bool
where
  by_key:
    "current_base h base (Key k) wa = (cur, h0) \<Longrightarrow>
     nextBase h0 cur k (next_key rest) wa = (nb, h1) \<Longrightarrow>
     set_calls tn wa (h, base, Key k # rest, v) (h1, nb, rest, v)"
| in_array:
    "current_base h base (Group g) wa = (cur, h0) \<Longrightarrow> isArray h0 (Ref cur) \<Longrightarrow> i < length g \<Longrightarrow>
     reduceWithArray (\<lambda>h b p v w. set_rec tn h b p v w) tn (h0 @ [Arr (elems h0 cur)]) cur
       (Group g # rest) (take i g) (next_key rest) v wa (length h0) = (Inr r, hc) \<Longrightarrow>
     nextBase hc cur (g ! i) (next_key rest) wa = (nb, h1) \<Longrightarrow>
     get_member h1 v (KNum i) = Inr w \<Longrightarrow>
     set_calls tn wa (h, base, Group g # rest, v) (h1, nb, rest, w)"
| in_object:
    "current_base h base (Group g) wa = (cur, h0) \<Longrightarrow> \<not> isArray h0 (Ref cur) \<Longrightarrow> i < length g \<Longrightarrow>
     reduceWithObject (\<lambda>h b p v w. set_rec tn h b p v w) h0 cur
       (Group g # rest) (take i g) (next_key rest) v wa = (Inr r, hc) \<Longrightarrow>
     nextBase hc cur (g ! i) (next_key rest) wa = (nb, h1) \<Longrightarrow>
     get_member h1 v (if isArray h0 v then KNum i else g ! i) = Inr w \<Longrightarrow>
     set_calls tn wa (h, base, Group g # rest, v) (h1, nb, rest, w)"




section \<open>The store only grows\<close>

lemma same_upto_refl: "n \<le> length h \<Longrightarrow> same_upto n h h"
  by (simp add: same_upto_def)

lemma same_upto_trans: "same_upto n h h' \<Longrightarrow> same_upto n h' h'' \<Longrightarrow> same_upto n h h''"
  by (simp add: same_upto_def)

lemma same_upto_mono: "same_upto m h h' \<Longrightarrow> n \<le> m \<Longrightarrow> same_upto n h h'"
  by (simp add: same_upto_def)

lemma same_upto_append: "n \<le> length h \<Longrightarrow> same_upto n h (h @ ext)"
  by (simp add: same_upto_def nth_append)

lemma same_upto_update: "n \<le> length h \<Longrightarrow> n \<le> a \<Longrightarrow> same_upto n h (h[a := ob])"
  by (simp add: same_upto_def)

lemma same_upto_prefix: "same_upto (length h) h h' \<longleftrightarrow> prefix h h'"
proof
  assume s: "same_upto (length h) h h'"
  then have "take (length h) h' = h"
    by (intro nth_equalityI) (auto simp: same_upto_def)
  then show "prefix h h'"
    by (metis take_is_prefix)
next
  assume "prefix h h'"
  then show "same_upto (length h) h h'"
    by (auto simp: prefix_def same_upto_append)
qed

lemma same_upto_length: "same_upto n h h' \<Longrightarrow> n \<le> length h'"
  by (simp add: same_upto_def)

lemma current_base_same:
  "current_base h base key wa = (a, h0) \<Longrightarrow> n \<le> length h \<Longrightarrow> same_upto n h h0"
  by (cases base) (auto simp: same_upto_append same_upto_refl)

lemma nextBase_same:
  "nextBase h a k nk wa = (nb, h1) \<Longrightarrow> n \<le> length h \<Longrightarrow> same_upto n h h1"
  by (auto simp: nextBase_def alloc_def same_upto_append same_upto_refl split: if_splits)

lemma array_store_same:
  "n \<le> length h \<Longrightarrow> n \<le> acc \<Longrightarrow> same_upto n h (array_store tn h acc key v)"
  by (auto simp: array_store_def same_upto_update same_upto_refl split: obj.splits option.splits)

lemma object_store_same:
  "n \<le> length h \<Longrightarrow> n \<le> acc \<Longrightarrow> same_upto n h (object_store h acc key v)"
  by (auto simp: object_store_def same_upto_update same_upto_refl split: obj.splits)

lemma reduce_keys_same:
  assumes step: "\<And>k i h r h'. n \<le> length h \<Longrightarrow> f k i h = (r, h') \<Longrightarrow> same_upto n h h'"
  shows "n \<le> length h \<Longrightarrow> reduce_keys f ks i h = (r, h') \<Longrightarrow> same_upto n h h'"
proof (induction ks arbitrary: i h)
  case Nil
  then show ?case by (simp add: same_upto_refl)
next
  case (Cons k ks)
  obtain r1 h1 where f: "f k i h = (r1, h1)" by (cases "f k i h")
  from step [OF Cons.prems(1) f] have s1: "same_upto n h h1" .
  show ?case
  proof (cases r1)
    case None
    with Cons.prems f have "reduce_keys f ks (Suc i) h1 = (r, h')" by simp
    from Cons.IH [OF same_upto_length [OF s1] this] s1 show ?thesis
      by (blast intro: same_upto_trans)
  next
    case (Some e)
    with Cons.prems f s1 show ?thesis by simp
  qed
qed

lemma reduceWithArray_same:
  assumes f: "\<And>h1 nb v r h2. f h1 nb (tl path) v wa = (r, h2) \<Longrightarrow> same_upto (length h1) h1 h2"
    and n: "n \<le> length h" "n \<le> acc"
    and run: "reduceWithArray f tn h base path keys nk vals wa acc = (r, h')"
  shows "same_upto n h h'"
proof (cases "isArray h vals")
  case False
  with run n show ?thesis by (simp add: reduceWithArray_def same_upto_refl)
next
  case True
  let ?step = "\<lambda>key index h.
                  let (nb, h1) = nextBase h base key nk wa in
                  case get_member h1 vals (KNum index) of
                    Inl e \<Rightarrow> (Some e, h1)
                  | Inr v \<Rightarrow>
                      (case f h1 nb (tl path) v wa of
                         (Inl e, h2) \<Rightarrow> (Some e, h2)
                       | (Inr newValue, h2) \<Rightarrow>
                           (None, array_store tn h2 acc key newValue))"
  have step: "same_upto n h0 h3" if "n \<le> length h0" "?step k i h0 = (r0, h3)" for k i h0 r0 h3
  proof -
    obtain nb h1 where nb: "nextBase h0 base k nk wa = (nb, h1)" by (cases "nextBase h0 base k nk wa")
    have s1: "same_upto n h0 h1" using nextBase_same [OF nb that(1)] .
    show ?thesis
    proof (cases "get_member h1 vals (KNum i)")
      case (Inl e)
      with that nb s1 show ?thesis by simp
    next
      case (Inr v)
      obtain r2 h2 where c: "f h1 nb (tl path) v wa = (r2, h2)" by (cases "f h1 nb (tl path) v wa")
      have s2: "same_upto n h1 h2"
        using f [OF c] same_upto_length [OF s1] by (rule same_upto_mono)
      show ?thesis
      proof (cases r2)
        case (Inl e)
        with that nb Inr c have "h3 = h2" by simp
        with s1 s2 show ?thesis by (blast intro: same_upto_trans)
      next
        case r: (Inr w)
        with that nb Inr c have "h3 = array_store tn h2 acc k w" by simp
        with array_store_same [OF same_upto_length [OF s2] n(2)] s1 s2 show ?thesis
          by (blast intro: same_upto_trans)
      qed
    qed
  qed
  obtain r0 h0 where red: "reduce_keys ?step keys 0 h = (r0, h0)" by (cases "reduce_keys ?step keys 0 h")
  have "same_upto n h h0"
    by (rule reduce_keys_same [where f = ?step, OF step n(1) red])
  moreover from run True red have "h' = h0"
    by (auto simp: reduceWithArray_def split: option.splits)
  ultimately show ?thesis by simp
qed


lemma reduceWithObject_alt:
  "reduceWithObject fn h base path keys nk vals wa =
     (case reduce_keys
             (\<lambda>key index h'.
                let (nb, h1) = nextBase h' base key nk wa in
                case get_member h1 vals (if isArray h vals then KNum index else key) of
                  Inl e \<Rightarrow> (Some e, h1)
                | Inr v \<Rightarrow>
                    (case fn h1 nb (tl path) v wa of
                       (Inl e, h2) \<Rightarrow> (Some e, h2)
                     | (Inr newValue, h2) \<Rightarrow> (None, object_store h2 (length h) key newValue)))
             keys 0 (h @ [Obj []])
      of
        (Some e, h') \<Rightarrow> (Inl e, h')
      | (None, h') \<Rightarrow> (Inr (Ref (length h)), h'))"
  by (simp add: reduceWithObject_def)

lemma reduceWithObject_same:
  assumes f: "\<And>h1 nb v r h2. f h1 nb (tl path) v wa = (r, h2) \<Longrightarrow> same_upto (length h1) h1 h2"
    and n: "n \<le> length h"
    and run: "reduceWithObject f h base path keys nk vals wa = (r, h')"
  shows "same_upto n h h'"
proof -
  let ?acc = "length h"
  let ?step = "\<lambda>key index h'.
                let (nb, h1) = nextBase h' base key nk wa in
                case get_member h1 vals (if isArray h vals then KNum index else key) of
                  Inl e \<Rightarrow> (Some e, h1)
                | Inr v \<Rightarrow>
                    (case f h1 nb (tl path) v wa of
                       (Inl e, h2) \<Rightarrow> (Some e, h2)
                     | (Inr newValue, h2) \<Rightarrow> (None, object_store h2 ?acc key newValue))"
  have step: "same_upto n h0 h3" if "n \<le> length h0" "?step k i h0 = (r0, h3)" for k i h0 r0 h3
  proof -
    obtain nb h1 where nb: "nextBase h0 base k nk wa = (nb, h1)" by (cases "nextBase h0 base k nk wa")
    have s1: "same_upto n h0 h1" using nextBase_same [OF nb that(1)] .
    show ?thesis
    proof (cases "get_member h1 vals (if isArray h vals then KNum i else k)")
      case (Inl e)
      with that nb s1 show ?thesis by simp
    next
      case (Inr v)
      obtain r2 h2 where c: "f h1 nb (tl path) v wa = (r2, h2)" by (cases "f h1 nb (tl path) v wa")
      have s2: "same_upto n h1 h2"
        using f [OF c] same_upto_length [OF s1] by (rule same_upto_mono)
      show ?thesis
      proof (cases r2)
        case (Inl e)
        with that nb Inr c have "h3 = h2" by simp
        with s1 s2 show ?thesis by (blast intro: same_upto_trans)
      next
        case r: (Inr w)
        with that nb Inr c have "h3 = object_store h2 ?acc k w" by simp
        with object_store_same [OF same_upto_length [OF s2] n] s1 s2 show ?thesis
          by (blast intro: same_upto_trans)
      qed
    qed
  qed
  obtain r0 h0 where red: "reduce_keys ?step keys 0 (h @ [Obj []]) = (r0, h0)"
    by (cases "reduce_keys ?step keys 0 (h @ [Obj []])")
  have n1: "n \<le> length (h @ [Obj []])" using n by simp
  have "same_upto n (h @ [Obj []]) h0"
    by (rule reduce_keys_same [where f = ?step, OF step n1 red])
  with same_upto_append [OF n] have "same_upto n h h0"
    by (blast intro: same_upto_trans)
  moreover from run red have "h' = h0"
    by (auto simp: reduceWithObject_alt split: option.splits)
  ultimately show ?thesis by simp
qed

lemma set_rec_same: "set_rec tn h base path v wa = (r, h') \<Longrightarrow> same_upto (length h) h h'"
proof (induction tn h base path v wa arbitrary: r h' rule: set_rec.induct)
  case (1 tn h base v wa)
  then show ?case by (simp add: set_rec.simps same_upto_refl)
next
  case (2 tn h base key rest v wa)
  obtain cur h0 where cb: "current_base h base key wa = (cur, h0)"
    by (cases "current_base h base key wa")
  have s0: "same_upto (length h) h h0" using current_base_same [OF cb] by simp
  have l0: "length h \<le> length h0" using s0 by (rule same_upto_length)
  show ?case
  proof (cases key)
    case (Key k)
    obtain nb h1 where nb: "nextBase h0 cur k (next_key rest) wa = (nb, h1)"
      by (cases "nextBase h0 cur k (next_key rest) wa")
    obtain r2 h2 where rc: "set_rec tn h1 nb rest v wa = (r2, h2)"
      by (cases "set_rec tn h1 nb rest v wa")
    have s1: "same_upto (length h) h0 h1" using nextBase_same [OF nb l0] .
    have l1: "length h \<le> length h1" using s1 by (rule same_upto_length)
    have "same_upto (length h1) h1 h2"
    proof (cases "isArray h0 (Ref cur)")
      case True
      show ?thesis
        by (rule "2.IH"(1) [OF refl cb [symmetric] refl Key True refl nb [symmetric] refl rc])
    next
      case False
      show ?thesis
        by (rule "2.IH"(2) [OF refl cb [symmetric] refl Key False refl nb [symmetric] refl rc])
    qed
    then have s2: "same_upto (length h) h1 h2" using l1 by (rule same_upto_mono)
    have s02: "same_upto (length h) h h2"
      using s0 s1 s2 by (blast intro: same_upto_trans)
    have l2: "length h \<le> length h2" using s2 by (rule same_upto_length)
    show ?thesis
    proof (cases r2)
      case (Inl e)
      with "2.prems" cb Key nb rc have "h' = h2" by (simp add: set_rec.simps Let_def split: if_splits)
      with s02 show ?thesis by simp
    next
      case (Inr w)
      with "2.prems" cb Key nb rc have "\<exists>ob. h' = h2 @ [ob]"
        by (auto simp: set_rec.simps return_new_def Let_def split: if_splits)
      with s02 same_upto_append [OF l2] show ?thesis
        by (blast intro: same_upto_trans)
    qed
  next
    case (Group ks)
    show ?thesis
    proof (cases "isArray h0 (Ref cur)")
      case True
      let ?h1 = "h0 @ [Arr (elems h0 cur)]"
      have f: "\<And>h1 nb w r h2. (\<lambda>h b p v w. set_rec tn h b p v w) h1 nb (tl (key # rest)) w wa = (r, h2)
                 \<Longrightarrow> same_upto (length h1) h1 h2"
        using "2.IH"(3) [OF refl cb [symmetric] refl Group True refl refl] by simp
      from "2.prems" cb Group True
      have run: "reduceWithArray (\<lambda>h b p v w. set_rec tn h b p v w) tn ?h1 cur (key # rest) ks
                   (next_key rest) v wa (length h0) = (r, h')"
        by (simp add: set_rec.simps Let_def)
      have "same_upto (length h) ?h1 h'"
        by (rule reduceWithArray_same [OF f _ _ run]) (use l0 in auto)
      with s0 same_upto_append [OF l0] show ?thesis
        by (blast intro: same_upto_trans)
    next
      case False
      have f: "\<And>h1 nb w r h2. (\<lambda>h b p v w. set_rec tn h b p v w) h1 nb (tl (key # rest)) w wa = (r, h2)
                 \<Longrightarrow> same_upto (length h1) h1 h2"
        using "2.IH"(4) [OF refl cb [symmetric] refl Group False refl] by simp
      obtain r2 h2 where run: "reduceWithObject (\<lambda>h b p v w. set_rec tn h b p v w) h0 cur (key # rest) ks
                   (next_key rest) v wa = (r2, h2)"
        by (cases "reduceWithObject (\<lambda>h b p v w. set_rec tn h b p v w) h0 cur (key # rest) ks
                   (next_key rest) v wa")
      have s2: "same_upto (length h) h0 h2"
        by (rule reduceWithObject_same [OF f l0 run])
      have l2: "length h \<le> length h2" using s2 by (rule same_upto_length)
      have s02: "same_upto (length h) h h2" using s0 s2 by (blast intro: same_upto_trans)
      show ?thesis
      proof (cases r2)
        case (Inl e)
        with "2.prems" cb Group False run have "h' = h2" by (simp add: set_rec.simps Let_def)
        with s02 show ?thesis by simp
      next
        case (Inr w)
        with "2.prems" cb Group False run have "\<exists>ob. h' = h2 @ [ob]"
          by (auto simp: set_rec.simps return_new_def Let_def)
        with s02 same_upto_append [OF l2] show ?thesis
          by (blast intro: same_upto_trans)
      qed
    qed
  qed
qed

lemma safeSet_same: "safeSet tn h base p v opts = (r, h') \<Longrightarrow> prefix h h'"
  unfolding same_upto_prefix [symmetric]
  by (auto simp: safeSet_def same_upto_refl set_rec_same split: path_arg.splits if_splits)

lemma closed_store_vals:
  "closed_store h \<Longrightarrow> a < length h \<Longrightarrow> v \<in> set (obj_vals (h ! a)) \<Longrightarrow> ref_ok h v"
  by (auto simp: closed_store_def list_all_iff)

lemma prefix_deref: "prefix h h' \<Longrightarrow> a < length h \<Longrightarrow> deref h' a = deref h a"
  by (auto simp: prefix_def deref_def nth_append)

lemma snapshot_prefix:
  "prefix h h' \<Longrightarrow> closed_store h \<Longrightarrow> ref_ok h v \<Longrightarrow> snapshot n h' v = snapshot n h v"
proof (induction n arbitrary: v)
  case 0
  then show ?case by (cases v) simp_all
next
  case (Suc n)
  show ?case
  proof (cases v)
    case (Ref a)
    with Suc.prems have a: "a < length h" by simp
    have d: "deref h' a = deref h a" using Suc.prems(1) a by (rule prefix_deref)
    have ok: "ref_ok h w" if "w \<in> set (obj_vals (deref h a))" for w
      using closed_store_vals [OF Suc.prems(2) a] that a by (simp add: deref_def)
    show ?thesis
    proof (cases "deref h a")
      case (Arr xs)
      with ok have "\<And>w. w \<in> set xs \<Longrightarrow> snapshot n h' w = snapshot n h w"
        using Suc.IH [OF Suc.prems(1,2)] by simp
      with Ref d Arr show ?thesis by simp
    next
      case (Obj ps)
      with ok have "\<And>p. p \<in> set ps \<Longrightarrow> snapshot n h' (snd p) = snapshot n h (snd p)"
        using Suc.IH [OF Suc.prems(1,2)] by simp
      with Ref d Obj show ?thesis by simp
    qed
  qed simp_all
qed

lemma safeSet_prefix: "prefix h (snd (safeSet tn h base p v opts))"
  using safeSet_same [of tn h base p v opts] by (cases "safeSet tn h base p v opts") simp

section \<open>Evaluation and auxiliary facts\<close>

lemma split_dots_no_dot: "CHR ''.'' \<notin> set s \<Longrightarrow> split_dots s = [s]"
  by (induction s) auto

lemma match_bracket_digits:
  "list_all is_digit ds \<Longrightarrow> match_bracket (ds @ CHR '']'' # r) = Some ds"
proof -
  assume d: "list_all is_digit ds"
  have nd: "\<not> is_digit CHR '']''" by (simp add: is_digit_def digit_chars_def)
  from d have "dropWhile is_digit (ds @ CHR '']'' # r) = CHR '']'' # r"
    using nd by (simp add: dropWhile_append list_all_iff)
  moreover from d have "takeWhile is_digit (ds @ CHR '']'' # r) = ds"
    using nd by (simp add: takeWhile_append list_all_iff)
  ultimately show ?thesis by (simp add: match_bracket_def)
qed

lemma regex_exec_prefix:
  "CHR ''['' \<notin> set p \<Longrightarrow> list_all is_digit ds \<Longrightarrow>
   regex_exec (p @ CHR ''['' # ds @ CHR '']'' # r) = Some (length p, ds)"
proof (induction p)
  case Nil
  then show ?case by (simp add: match_bracket_digits)
next
  case (Cons c p)
  then have "c \<noteq> CHR ''[''" by auto
  with Cons show ?case by simp
qed

lemma regex_exec_no_bracket: "CHR ''['' \<notin> set s \<Longrightarrow> regex_exec s = None"
proof (induction s)
  case Nil
  then show ?case by simp
next
  case (Cons c s)
  then have "c \<noteq> CHR ''[''" by auto
  with Cons show ?case by simp
qed

lemma not_digit_dot: "\<not> is_digit CHR ''.''"
  by (simp add: is_digit_def digit_chars_def)

lemma digits_no_dot: "list_all is_digit ds \<Longrightarrow> CHR ''.'' \<notin> set ds"
  unfolding list_all_iff using not_digit_dot by blast

lemma parse_token_no_bracket: "CHR ''['' \<notin> set t \<Longrightarrow> parse_token t = [Key (KStr t)]"
  by (simp add: parse_token_def regex_exec_no_bracket)

lemma split_dots_set: "\<forall>t \<in> set (split_dots s). set t \<subseteq> set s"
proof (induction s)
  case Nil
  then show ?case by simp
next
  case (Cons c cs)
  show ?case
  proof (cases "split_dots cs")
    case Nil
    with Cons show ?thesis by auto
  next
    case (Cons t ts)
    with Cons.IH show ?thesis by auto
  qed
qed

lemma parse_path_no_bracket:
  assumes "CHR ''['' \<notin> set s" "sg \<in> set (parse_path s)"
  shows "\<exists>t. sg = Key (KStr t)"
proof -
  from assms(2) obtain t where t: "t \<in> set (split_dots s)" "sg \<in> set (parse_token t)"
    by (auto simp: parse_path_def)
  from split_dots_set [of s] t(1) assms(1) have "CHR ''['' \<notin> set t" by auto
  with t(2) show ?thesis by (simp add: parse_token_no_bracket)
qed

lemma set_rec_array_append:
  assumes a: "a < length h" "h ! a = Arr xs" and n: "length xs \<le> n"
  shows "set_rec tn h (Ref a) [Key (KNum n)] v wa
         = (Inr (Ref (Suc (length h))), h @ [Obj [], Arr (xs @ [v])])"
proof -
  have d: "deref h a = Arr xs" using a by (simp add: deref_def)
  have d1: "deref (h @ [Obj []]) a = Arr xs" using a by (simp add: deref_def nth_append)
  have nb: "nextBase h a (KNum n) None wa = (Ref (length h), h @ [Obj []])"
    using d n by (simp add: nextBase_def get_prop_def alloc_def)
  have s1: "slice_to tn xs (KNum n) = xs"
    using n by (simp add: slice_to_def trunc_def)
  have s2: "slice_from tn xs (KNum n) = []"
    using n by (simp add: slice_from_def trunc_def)
  show ?thesis
    using d d1 nb s1 s2 by (simp add: set_rec.simps elems_def return_new_def)
qed

lemma safeSet_unsafe:
  "\<not> (safe opts \<and> recursiveEqual h base path v (equality opts)) \<Longrightarrow> path \<noteq> [] \<Longrightarrow>
   safeSet tn h base (PArray path) v opts = set_rec tn h base path v (withArrays opts)"
  by (cases path) (auto simp: safeSet_def)

lemma array_store_num:
  "deref h acc = Arr cur \<Longrightarrow> acc < length h \<Longrightarrow>
   array_store tn h acc (KNum n) v
     = h[acc := Arr (if n < length cur then cur[n := v] else cur @ [v])]"
  by (simp add: array_store_def)

lemma deref_update_other: "c \<noteq> acc \<Longrightarrow> deref (h[acc := ob]) c = deref h c"
  by (simp add: deref_def)

lemma deref_update_same: "acc < length h \<Longrightarrow> deref (h[acc := ob]) acc = ob"
  by (simp add: deref_def)

lemma deref_append: "c < length h \<Longrightarrow> deref (h @ ext) c = deref h c"
  by (simp add: deref_def nth_append)

lemma reduce_terminal_array:
  assumes "a < acc" "b < acc"
  shows "acc < length h \<Longrightarrow> deref h a = Arr xs \<Longrightarrow> deref h b = Arr vs \<Longrightarrow> deref h acc = Arr cur \<Longrightarrow>
     \<exists>h'. reduce_keys
            (\<lambda>key index h.
                  let (nb, h1) = nextBase h a key None wa in
                  case get_member h1 (Ref b) (KNum index) of
                    Inl e \<Rightarrow> (Some e, h1)
                  | Inr v \<Rightarrow>
                      (case set_rec tn h1 nb [] v wa of
                         (Inl e, h2) \<Rightarrow> (Some e, h2)
                       | (Inr newValue, h2) \<Rightarrow>
                           (None, array_store tn h2 acc key newValue)))
            (map KNum ns) i h = (None, h') \<and>
          deref h' acc = Arr (store_all cur (zip ns (positional vs i (length ns))))"
proof (induction ns arbitrary: i h cur)
  case Nil
  then show ?case by (simp add: positional_def)
next
  case (Cons n ns)
  obtain nb h1 where nb: "nextBase h a (KNum n) None wa = (nb, h1)"
    by (cases "nextBase h a (KNum n) None wa")
  then have h1: "h1 = h \<or> h1 = h @ [Obj []]"
    by (auto simp: nextBase_def alloc_def split: if_splits)
  have l1: "acc < length h1" using h1 Cons.prems(1) by auto
  have d1: "deref h1 a = Arr xs" "deref h1 b = Arr vs" "deref h1 acc = Arr cur"
    using h1 Cons.prems assms by (auto simp: deref_append)
  let ?v = "if i < length vs then vs ! i else Undefined"
  let ?cur = "if n < length cur then cur[n := ?v] else cur @ [?v]"
  let ?h2 = "h1[acc := Arr ?cur]"
  have gm: "get_member h1 (Ref b) (KNum i) = Inr ?v"
    using d1(2) by (simp add: get_prop_def)
  have st: "array_store tn h1 acc (KNum n) ?v = ?h2"
    using array_store_num [OF d1(3) l1] .
  have d2: "deref ?h2 a = Arr xs" "deref ?h2 b = Arr vs" "deref ?h2 acc = Arr ?cur"
    using d1 l1 assms by (simp_all add: deref_update_other deref_update_same)
  have l2: "acc < length ?h2" using l1 by simp
  from Cons.IH [OF l2 d2, of "Suc i"] obtain h' where
    run: "reduce_keys
            (\<lambda>key index h.
                  let (nb, h1) = nextBase h a key None wa in
                  case get_member h1 (Ref b) (KNum index) of
                    Inl e \<Rightarrow> (Some e, h1)
                  | Inr v \<Rightarrow>
                      (case set_rec tn h1 nb [] v wa of
                         (Inl e, h2) \<Rightarrow> (Some e, h2)
                       | (Inr newValue, h2) \<Rightarrow>
                           (None, array_store tn h2 acc key newValue)))
            (map KNum ns) (Suc i) ?h2 = (None, h')"
    and res: "deref h' acc = Arr (store_all ?cur (zip ns (positional vs (Suc i) (length ns))))"
    by blast
  have p: "positional vs i (length (n # ns)) = ?v # positional vs (Suc i) (length ns)"
    by (simp add: positional_def upt_rec)
  show ?case
    using nb gm st run res unfolding p by (simp add: set_rec.simps)
qed

lemma set_rec_terminal_array_group:
  assumes a: "a < length h" "h ! a = Arr xs" and b: "b < length h" "h ! b = Arr vs"
  shows "\<exists>h'. set_rec tn h (Ref a) [Group (map KNum ns)] (Ref b) wa = (Inr (Ref (length h)), h') \<and>
     deref h' (length h) = Arr (store_all xs (zip ns (positional vs 0 (length ns))))"
proof -
  let ?h1 = "h @ [Arr xs]"
  have da: "deref h a = Arr xs" using a by (simp add: deref_def)
  have d: "deref ?h1 a = Arr xs" "deref ?h1 b = Arr vs" "deref ?h1 (length h) = Arr xs"
    using a b by (simp_all add: deref_def nth_append)
  have l: "length h < length ?h1" by simp
  from reduce_terminal_array [OF a(1) b(1) l d, of wa tn ns 0] obtain h' where
    run: "reduce_keys
            (\<lambda>key index h'.
                  let (nb, h1) = nextBase h' a key None wa in
                  case get_member h1 (Ref b) (KNum index) of
                    Inl e \<Rightarrow> (Some e, h1)
                  | Inr v \<Rightarrow>
                      (case set_rec tn h1 nb [] v wa of
                         (Inl e, h2) \<Rightarrow> (Some e, h2)
                       | (Inr newValue, h2) \<Rightarrow>
                           (None, array_store tn h2 (length h) key newValue)))
            (map KNum ns) 0 ?h1 = (None, h')"
    and res: "deref h' (length h) = Arr (store_all xs (zip ns (positional vs 0 (length ns))))"
    by blast
  have "set_rec tn h (Ref a) [Group (map KNum ns)] (Ref b) wa = (Inr (Ref (length h)), h')"
    using da d(2) run by (simp add: set_rec.simps reduceWithArray_def elems_def)
  with res show ?thesis by blast
qed

lemmas run_defs = safeSet_def set_rec.simps nextBase_def get_prop_def deref_def alloc_def
  return_new_def reduceWithObject_def reduceWithArray_def object_store_def array_store_def
  props_def elems_def spread_over_def string_of_nat.simps digit_chars_def

section \<open>Immutability of the original structure\<close>

text \<open>
  C1. Calling \<open>safeSet\<close> never changes the original structure at any depth, on any path
  of the code, the failing ones included: the store before the call is an initial
  segment of the store after it, so every object that existed is at its address with
  the contents it had; and in a closed store the snapshot of \<open>base\<close> to any depth is
  the same after the call as before.
\<close>

theorem update_never_mutates_base:
  "prefix h (snd (safeSet tn h base path value opts)) \<and>
   (closed_store h \<and> ref_ok h base \<longrightarrow>
      snapshot n (snd (safeSet tn h base path value opts)) base = snapshot n h base)"
  using safeSet_prefix [of h tn base path "value" opts] by (simp add: snapshot_prefix)

theorem update_never_mutates_base_witness:
  "(closed_store [Obj [(''a'', Ref 1)], Arr [Num 1]] \<and> ref_ok [Obj [(''a'', Ref 1)], Arr [Num 1]] (Ref 0)) \<and>
   fst (safeSet decimal_to_number [Obj [(''a'', Ref 1)], Arr [Num 1]] (Ref 0) (PString ''a[0]'') (Num 2)
          default_options) = Inr (Ref 3) \<and>
   prefix [Obj [(''a'', Ref 1)], Arr [Num 1]]
     (snd (safeSet decimal_to_number [Obj [(''a'', Ref 1)], Arr [Num 1]] (Ref 0) (PString ''a[0]'') (Num 2)
             default_options)) \<and>
   snapshot 2 (snd (safeSet decimal_to_number [Obj [(''a'', Ref 1)], Arr [Num 1]] (Ref 0) (PString ''a[0]'')
                      (Num 2) default_options)) (Ref 0)
     = TObj [(''a'', TArr [TNum 1])] \<and>
   snapshot 2 (snd (safeSet decimal_to_number [Obj [(''a'', Ref 1)], Arr [Num 1]] (Ref 0) (PString ''a[0]'')
                      (Num 2) default_options)) (Ref 3)
     = TObj [(''a'', TArr [TNum 2])]"
proof -
  let ?h = "[Obj [(''a'', Ref 1)], Arr [Num 1]]"
  let ?run = "safeSet decimal_to_number ?h (Ref 0) (PString ''a[0]'') (Num 2) default_options"
  have ok: "closed_store ?h \<and> ref_ok ?h (Ref 0)" by code_simp
  have before: "snapshot 2 ?h (Ref 0) = TObj [(''a'', TArr [TNum 1])]" by code_simp
  have res: "fst ?run = Inr (Ref 3)" by code_simp
  have new: "snapshot 2 (snd ?run) (Ref 3) = TObj [(''a'', TArr [TNum 2])]" by code_simp
  from update_never_mutates_base [of ?h decimal_to_number "Ref 0" "PString ''a[0]''" "Num 2"
      default_options 2] ok before
  have "prefix ?h (snd ?run) \<and> snapshot 2 (snd ?run) (Ref 0) = TObj [(''a'', TArr [TNum 1])]"
    by simp
  with ok res new show ?thesis by simp
qed

section \<open>Group segment under a newly created key\<close>

text \<open>
  C3, as the specification states it, does not hold: on an empty mapping, with the path
  \<open>["a", [0, 1]]\<close> and the values \<open>[10, 20]\<close>, the result is
  \<open>{ a: { "0": 10, "1": 20 } }\<close> and not \<open>{ a: [10, 20] }\<close>.
\<close>

theorem group_under_new_key_counterexample:
  "result_tree 3 (safeSet decimal_to_number [Obj [], Arr [Num 10, Num 20]] (Ref 0)
       (PArray [Key (KStr ''a''), Group [KNum 0, KNum 1]]) (Ref 1) default_options)
     = Inr (TObj [(''a'', TObj [(''0'', TNum 10), (''1'', TNum 20)])]) \<and>
   result_tree 3 (safeSet decimal_to_number [Obj [], Arr [Num 10, Num 20]] (Ref 0)
       (PArray [Key (KStr ''a''), Group [KNum 0, KNum 1]]) (Ref 1) default_options)
     \<noteq> Inr (TObj [(''a'', TArr [TNum 10, TNum 20])])"
  by code_simp

text \<open>
  C3, amended. The call yields \<open>{ a: { "0": 10, "1": 20 } }\<close>, whatever the options
  \<open>withArrays\<close> and \<open>safe\<close>: the container created under \<open>"a"\<close> is a mapping, because
  \<open>nextBase\<close> creates an array only when \<open>withArrays\<close> is set and the next segment is a
  single number, which a group is not. Numeric group keys select an array only where the
  current level itself is not an object: on \<open>undefined\<close> the path \<open>[[0, 1]]\<close> with the
  same values yields \<open>[10, 20]\<close>.
\<close>

theorem group_under_new_key_is_mapping:
  "result_tree 3 (safeSet tn [Obj [], Arr [Num 10, Num 20]] (Ref 0)
       (PArray [Key (KStr ''a''), Group [KNum 0, KNum 1]]) (Ref 1)
       \<lparr>withArrays = wa, equality = None, safe = s\<rparr>)
     = Inr (TObj [(''a'', TObj [(''0'', TNum 10), (''1'', TNum 20)])]) \<and>
   (\<not> truthy (get_prop h a k) \<longrightarrow>
      nextBase h a k (Some (Group g)) wa = (Ref (length h), h @ [Obj []])) \<and>
   result_tree 3 (safeSet tn [Arr [Num 10, Num 20]] Undefined
       (PArray [Group [KNum 0, KNum 1]]) (Ref 0)
       \<lparr>withArrays = wa, equality = None, safe = s\<rparr>)
     = Inr (TArr [TNum 10, TNum 20])"
proof (intro conjI impI)
  show "result_tree 3 (safeSet tn [Obj [], Arr [Num 10, Num 20]] (Ref 0)
       (PArray [Key (KStr ''a''), Group [KNum 0, KNum 1]]) (Ref 1)
       \<lparr>withArrays = wa, equality = None, safe = s\<rparr>)
     = Inr (TObj [(''a'', TObj [(''0'', TNum 10), (''1'', TNum 20)])])"
    by (simp add: run_defs numeral_3_eq_3)
next
  assume "\<not> truthy (get_prop h a k)"
  then show "nextBase h a k (Some (Group g)) wa = (Ref (length h), h @ [Obj []])"
    by (simp add: nextBase_def alloc_def)
next
  show "result_tree 3 (safeSet tn [Arr [Num 10, Num 20]] Undefined
       (PArray [Group [KNum 0, KNum 1]]) (Ref 0)
       \<lparr>withArrays = wa, equality = None, safe = s\<rparr>)
     = Inr (TArr [TNum 10, TNum 20])"
    by (simp add: run_defs numeral_3_eq_3)
qed

theorem group_under_new_key_is_mapping_witness:
  "result_tree 3 (safeSet decimal_to_number [Obj [], Arr [Num 10, Num 20]] (Ref 0)
       (PArray [Key (KStr ''a''), Group [KNum 0, KNum 1]]) (Ref 1)
       \<lparr>withArrays = True, equality = None, safe = False\<rparr>)
     = Inr (TObj [(''a'', TObj [(''0'', TNum 10), (''1'', TNum 20)])]) \<and>
   nextBase [Obj []] 0 (KStr ''a'') (Some (Group [KNum 0, KNum 1])) True = (Ref 1, [Obj [], Obj []])"
proof -
  have f: "\<not> truthy (get_prop [Obj []] 0 (KStr ''a''))" by code_simp
  from group_under_new_key_is_mapping [where tn = decimal_to_number and wa = True and s = False
      and h = "[Obj []]" and a = 0 and k = "KStr ''a''" and g = "[KNum 0, KNum 1]"] f
  show ?thesis by simp
qed

section \<open>Safe mode\<close>

text \<open>
  C5. With a non-empty path, when \<open>safe\<close> is set and the pre-check \<open>recursiveEqual\<close>
  (strict equality, or the supplied comparison) finds the value at the path, \<open>safeSet\<close>
  returns \<open>base\<close> itself, the same reference, and leaves the store as it is.
\<close>

theorem safe_mode_returns_base:
  "safe opts \<Longrightarrow> normalize_path p = PArray path \<Longrightarrow> path \<noteq> [] \<Longrightarrow>
   recursiveEqual h base path value (equality opts) \<Longrightarrow>
   safeSet tn h base p value opts = (Inr base, h)"
  by (cases path) (simp_all add: safeSet_def)

theorem safe_mode_returns_base_witness:
  "safeSet decimal_to_number [Obj [(''a'', Ref 1)], Obj [(''b'', Num 1)]] (Ref 0) (PString ''a.b'') (Num 1)
     \<lparr>withArrays = False, equality = None, safe = True\<rparr>
   = (Inr (Ref 0), [Obj [(''a'', Ref 1)], Obj [(''b'', Num 1)]])"
proof -
  let ?h = "[Obj [(''a'', Ref 1)], Obj [(''b'', Num 1)]]"
  let ?o = "\<lparr>withArrays = False, equality = None, safe = True\<rparr>"
  have n: "normalize_path (PString ''a.b'') = PArray [Key (KStr ''a''), Key (KStr ''b'')]"
    by code_simp
  have e: "recursiveEqual ?h (Ref 0) [Key (KStr ''a''), Key (KStr ''b'')] (Num 1) (equality ?o)"
    by code_simp
  show ?thesis
    by (rule safe_mode_returns_base [OF _ n _ e]) simp_all
qed

section \<open>The string path\<close>

text \<open>
  C6, as the specification states it, does not hold: the string path \<open>"[0]"\<close> is parsed to
  the two segments \<open>["", 0]\<close>, not to the single segment \<open>[0]\<close>.
\<close>

theorem empty_prefix_counterexample:
  "parse_path ''[0]'' = [Key (KStr ''''), Key (KNum 0)] \<and> parse_path ''[0]'' \<noteq> [Key (KNum 0)]"
  by code_simp

text \<open>
  C6, amended. A piece of the string path that consists of a prefix (without dot or
  opening bracket) and a bracketed index is parsed to two segments, the prefix as a
  string and the index as a number, in that order; the prefix is kept when it is empty,
  so \<open>"[0]"\<close> is parsed to \<open>["", 0]\<close>.
\<close>

theorem bracket_token_keeps_prefix:
  "CHR ''.'' \<notin> set p \<Longrightarrow> CHR ''['' \<notin> set p \<Longrightarrow> list_all is_digit ds \<Longrightarrow>
   parse_path (p @ ''['' @ ds @ '']'') = [Key (KStr p), Key (KNum (nat_of_digits ds))]"
proof -
  assume p: "CHR ''.'' \<notin> set p" "CHR ''['' \<notin> set p" and d: "list_all is_digit ds"
  have "CHR ''.'' \<notin> set (p @ ''['' @ ds @ '']'')"
    using p(1) digits_no_dot [OF d] by simp
  then have "split_dots (p @ ''['' @ ds @ '']'') = [p @ ''['' @ ds @ '']'']"
    by (rule split_dots_no_dot)
  moreover have "regex_exec (p @ ''['' @ ds @ '']'') = Some (length p, ds)"
    using regex_exec_prefix [OF p(2) d, of "[]"] by simp
  ultimately show ?thesis
    by (simp add: parse_path_def parse_token_def)
qed

theorem bracket_token_keeps_prefix_witness:
  "parse_path ''[0]'' = [Key (KStr ''''), Key (KNum 0)] \<and>
   parse_path ''b[12]'' = [Key (KStr ''b''), Key (KNum 12)]"
proof -
  have d0: "list_all is_digit ''0''" by code_simp
  have d12: "list_all is_digit ''12''" by code_simp
  have n0: "nat_of_digits ''0'' = 0" by code_simp
  have n12: "nat_of_digits ''12'' = 12" by code_simp
  from bracket_token_keeps_prefix [of "''''" "''0''"] d0 n0
  have "parse_path ''[0]'' = [Key (KStr ''''), Key (KNum 0)]" by simp
  moreover from bracket_token_keeps_prefix [of "''b''" "''12''"] d12 n12
  have "parse_path ''b[12]'' = [Key (KStr ''b''), Key (KNum 12)]" by simp
  ultimately show ?thesis by simp
qed

text \<open>
  C10. Only the bracket syntax produces numeric segments: a string path without an
  opening bracket is parsed to string segments only, \<open>"a.0.b"\<close> to
  \<open>["a", "0", "b"]\<close>; and when the slot at a key is absent and the next segment is a
  string, \<open>nextBase\<close> creates a mapping, also with \<open>withArrays\<close> set.
\<close>

theorem dotted_numeric_token_stays_string:
  "(CHR ''['' \<notin> set s \<longrightarrow> (\<forall>sg \<in> set (parse_path s). \<exists>t. sg = Key (KStr t))) \<and>
   parse_path ''a.0.b'' = [Key (KStr ''a''), Key (KStr ''0''), Key (KStr ''b'')] \<and>
   (\<not> truthy (get_prop h a k) \<longrightarrow>
      nextBase h a k (Some (Key (KStr t))) wa = (Ref (length h), h @ [Obj []]))"
proof -
  have "parse_path ''a.0.b'' = [Key (KStr ''a''), Key (KStr ''0''), Key (KStr ''b'')]"
    by code_simp
  moreover have "\<forall>sg \<in> set (parse_path s). \<exists>t. sg = Key (KStr t)" if "CHR ''['' \<notin> set s"
    using parse_path_no_bracket [OF that] by blast
  moreover have "nextBase h a k (Some (Key (KStr t))) wa = (Ref (length h), h @ [Obj []])"
    if "\<not> truthy (get_prop h a k)"
    using that by (simp add: nextBase_def alloc_def)
  ultimately show ?thesis by blast
qed

theorem dotted_numeric_token_stays_string_witness:
  "CHR ''['' \<notin> set ''a.0.b'' \<and>
   parse_path ''a.0.b'' = [Key (KStr ''a''), Key (KStr ''0''), Key (KStr ''b'')] \<and>
   nextBase [Obj []] 0 (KStr ''a'') (Some (Key (KStr ''0''))) True = (Ref 1, [Obj [], Obj []]) \<and>
   result_tree 3 (safeSet decimal_to_number [Obj []] (Ref 0) (PString ''a.0.b'') (Num 1)
       \<lparr>withArrays = True, equality = None, safe = False\<rparr>)
     = Inr (TObj [(''a'', TObj [(''0'', TObj [(''b'', TNum 1)])])])"
proof -
  have b: "CHR ''['' \<notin> set ''a.0.b''" by simp
  have f: "\<not> truthy (get_prop [Obj []] 0 (KStr ''a''))" by code_simp
  have r: "result_tree 3 (safeSet decimal_to_number [Obj []] (Ref 0) (PString ''a.0.b'') (Num 1)
       \<lparr>withArrays = True, equality = None, safe = False\<rparr>)
     = Inr (TObj [(''a'', TObj [(''0'', TObj [(''b'', TNum 1)])])])"
    by code_simp
  from dotted_numeric_token_stays_string [where s = "''a.0.b''" and h = "[Obj []]" and a = 0
      and k = "KStr ''a''" and t = "''0''" and wa = True] b f r
  show ?thesis by simp
qed

section \<open>Writing at and past the end of an array\<close>

text \<open>
  C7. Writing to an array at the index equal to its length appends: for an array with the
  elements \<open>xs\<close> and any value \<open>v\<close>, \<open>safeSet\<close> with the path \<open>[length xs]\<close> returns a
  new array with the elements \<open>xs @ [v]\<close> (unless safe mode finds \<open>v\<close> already there).
  The instances of the specification are \<open>update([], [0], "x") = ["x"]\<close> and
  \<open>update(["x"], [1], "y") = ["x", "y"]\<close>.
\<close>

theorem write_at_length_appends:
  "a < length h \<Longrightarrow> h ! a = Arr xs \<Longrightarrow>
   \<not> (safe opts \<and> recursiveEqual h (Ref a) [Key (KNum (length xs))] v (equality opts)) \<Longrightarrow>
   safeSet tn h (Ref a) (PArray [Key (KNum (length xs))]) v opts
     = (Inr (Ref (Suc (length h))), h @ [Obj [], Arr (xs @ [v])])"
  by (simp add: safeSet_unsafe set_rec_array_append)

theorem write_at_length_appends_witness:
  "safeSet decimal_to_number [Arr []] (Ref 0) (PArray [Key (KNum 0)]) (Str ''x'') default_options
     = (Inr (Ref 2), [Arr [], Obj [], Arr [Str ''x'']]) \<and>
   safeSet decimal_to_number [Arr [Str ''x'']] (Ref 0) (PArray [Key (KNum 1)]) (Str ''y'') default_options
     = (Inr (Ref 2), [Arr [Str ''x''], Obj [], Arr [Str ''x'', Str ''y'']])"
proof -
  have s: "\<not> safe default_options" by (simp add: default_options_def)
  from write_at_length_appends [of 0 "[Arr []]" "[]" default_options "Str ''x''" decimal_to_number] s
  have "safeSet decimal_to_number [Arr []] (Ref 0) (PArray [Key (KNum 0)]) (Str ''x'') default_options
     = (Inr (Ref 2), [Arr [], Obj [], Arr [Str ''x'']])"
    by simp
  moreover
  from write_at_length_appends [of 0 "[Arr [Str ''x'']]" "[Str ''x'']" default_options "Str ''y''"
      decimal_to_number] s
  have "safeSet decimal_to_number [Arr [Str ''x'']] (Ref 0) (PArray [Key (KNum 1)]) (Str ''y'') default_options
     = (Inr (Ref 2), [Arr [Str ''x''], Obj [], Arr [Str ''x'', Str ''y'']])"
    by simp
  ultimately show ?thesis by simp
qed

text \<open>
  C9. Writing past the end of an array never leaves a gap. With a single key \<open>n\<close> not
  below the length, the value is appended: the result has the elements \<open>xs @ [v]\<close>. With
  a group of numeric keys and an array of values, the result is the array that the
  append-or-replace loop \<open>store_all\<close> computes from \<open>xs\<close>, and that loop appends the value
  of every key that is not below the current length.
\<close>

theorem out_of_range_write_appends:
  "(a < length h \<and> h ! a = Arr xs \<and> length xs \<le> n \<and>
    \<not> (safe opts \<and> recursiveEqual h (Ref a) [Key (KNum n)] v (equality opts)) \<longrightarrow>
      safeSet tn h (Ref a) (PArray [Key (KNum n)]) v opts
        = (Inr (Ref (Suc (length h))), h @ [Obj [], Arr (xs @ [v])])) \<and>
   (a < length h \<and> h ! a = Arr xs \<and> b < length h \<and> h ! b = Arr vs \<and>
    \<not> (safe opts \<and> recursiveEqual h (Ref a) [Group (map KNum ns)] (Ref b) (equality opts)) \<longrightarrow>
      (\<exists>h'. safeSet tn h (Ref a) (PArray [Group (map KNum ns)]) (Ref b) opts
               = (Inr (Ref (length h)), h') \<and>
            deref h' (length h) = Arr (store_all xs (zip ns (positional vs 0 (length ns)))))) \<and>
   (length acc \<le> k \<longrightarrow> store_all acc ((k, w) # rest) = store_all (acc @ [w]) rest)"
proof (intro conjI impI)
  assume "a < length h \<and> h ! a = Arr xs \<and> length xs \<le> n \<and>
    \<not> (safe opts \<and> recursiveEqual h (Ref a) [Key (KNum n)] v (equality opts))"
  then show "safeSet tn h (Ref a) (PArray [Key (KNum n)]) v opts
        = (Inr (Ref (Suc (length h))), h @ [Obj [], Arr (xs @ [v])])"
    by (simp add: safeSet_unsafe set_rec_array_append)
next
  assume g: "a < length h \<and> h ! a = Arr xs \<and> b < length h \<and> h ! b = Arr vs \<and>
    \<not> (safe opts \<and> recursiveEqual h (Ref a) [Group (map KNum ns)] (Ref b) (equality opts))"
  then have "safeSet tn h (Ref a) (PArray [Group (map KNum ns)]) (Ref b) opts
      = set_rec tn h (Ref a) [Group (map KNum ns)] (Ref b) (withArrays opts)"
    by (simp add: safeSet_unsafe)
  with set_rec_terminal_array_group [of a h xs b vs tn ns "withArrays opts"] g
  show "\<exists>h'. safeSet tn h (Ref a) (PArray [Group (map KNum ns)]) (Ref b) opts
               = (Inr (Ref (length h)), h') \<and>
            deref h' (length h) = Arr (store_all xs (zip ns (positional vs 0 (length ns))))"
    by simp
next
  assume "length acc \<le> k"
  then show "store_all acc ((k, w) # rest) = store_all (acc @ [w]) rest" by simp
qed

theorem out_of_range_write_appends_witness:
  "safeSet decimal_to_number [Arr [Num 1]] (Ref 0) (PArray [Key (KNum 5)]) (Num 2) default_options
     = (Inr (Ref 2), [Arr [Num 1], Obj [], Arr [Num 1, Num 2]]) \<and>
   (\<exists>h'. safeSet decimal_to_number [Arr [Num 1], Arr [Str ''a'', Str ''b'', Str ''c'']] (Ref 0)
            (PArray [Group [KNum 7, KNum 0, KNum 9]]) (Ref 1) default_options = (Inr (Ref 2), h') \<and>
         deref h' 2 = Arr [Str ''b'', Str ''a'', Str ''c'']) \<and>
   store_all [Num 1] [(7, Str ''a'')] = [Num 1, Str ''a'']"
proof -
  let ?h = "[Arr [Num 1], Arr [Str ''a'', Str ''b'', Str ''c'']]"
  have s: "\<not> safe default_options" by (simp add: default_options_def)
  have p: "store_all [Num 1] (zip [7, 0, 9] (positional [Str ''a'', Str ''b'', Str ''c''] 0
                (length [7::nat, 0, 9])))
             = [Str ''b'', Str ''a'', Str ''c'']"
    by code_simp
  note t = out_of_range_write_appends
  from t [where a = 0 and h = "[Arr [Num 1]]" and xs = "[Num 1]" and n = 5 and opts = default_options
      and v = "Num 2" and tn = decimal_to_number] s
  have 1: "safeSet decimal_to_number [Arr [Num 1]] (Ref 0) (PArray [Key (KNum 5)]) (Num 2) default_options
     = (Inr (Ref 2), [Arr [Num 1], Obj [], Arr [Num 1, Num 2]])"
    by simp
  from t [where a = 0 and h = ?h and xs = "[Num 1]" and opts = default_options and b = 1
      and vs = "[Str ''a'', Str ''b'', Str ''c'']" and ns = "[7, 0, 9]" and tn = decimal_to_number] s p
  have 2: "\<exists>h'. safeSet decimal_to_number ?h (Ref 0)
            (PArray [Group [KNum 7, KNum 0, KNum 9]]) (Ref 1) default_options = (Inr (Ref 2), h') \<and>
         deref h' 2 = Arr [Str ''b'', Str ''a'', Str ''c'']"
    by (simp add: numeral_2_eq_2)
  from t [where acc = "[Num 1]" and k = 7 and w = "Str ''a''" and rest = "[]"]
  have 3: "store_all [Num 1] [(7, Str ''a'')] = [Num 1, Str ''a'']"
    by simp
  from 1 2 3 show ?thesis by blast
qed

section \<open>Termination\<close>

lemma set_rec_rel_tail:
  "set_rec_rel y x \<Longrightarrow> set_path x \<noteq> [] \<and> set_path y = tl (set_path x)"
  by (erule set_rec_rel.cases) (simp_all add: set_path_def)

lemma recursiveEqual_rel_tail:
  "recursiveEqual_rel y x \<Longrightarrow> equal_path x \<noteq> [] \<and> equal_path y = tl (equal_path x)"
  by (erule recursiveEqual_rel.cases) (simp_all add: equal_path_def)

lemma set_rec_rel_wfp: "wfp set_rec_rel"
proof (rule wfp_if_convertible_to_nat)
  fix y x assume "set_rec_rel y x"
  from set_rec_rel_tail [OF this] show "length (set_path y) < length (set_path x)"
    by (cases "set_path x") simp_all
qed

lemma recursiveEqual_rel_wfp: "wfp recursiveEqual_rel"
proof (rule wfp_if_convertible_to_nat)
  fix y x assume "recursiveEqual_rel y x"
  from recursiveEqual_rel_tail [OF this] show "length (equal_path y) < length (equal_path x)"
    by (cases "equal_path x") simp_all
qed

text \<open>
  C8. The recursive setter terminates for every base, value and path. \<open>set_rec_rel y x\<close>
  holds when the call with the arguments \<open>x\<close> makes a recursive call with the arguments
  \<open>y\<close>, directly or through one of the batch reducers, and \<open>recursiveEqual_rel\<close> is the
  same for the pre-check: every such call is on the tail of the current path, which is
  one segment shorter, and every argument is in the domain where the recursion ends.
\<close>

theorem recursion_on_tail_terminates:
  "(set_rec_rel y x \<longrightarrow>
      set_path x \<noteq> [] \<and> set_path y = tl (set_path x) \<and>
      Suc (length (set_path y)) = length (set_path x)) \<and>
   set_rec_dom x \<and>
   (recursiveEqual_rel y' x' \<longrightarrow>
      equal_path x' \<noteq> [] \<and> equal_path y' = tl (equal_path x') \<and>
      Suc (length (equal_path y')) = length (equal_path x')) \<and>
   recursiveEqual_dom x'"
proof (intro conjI impI)
  assume r: "set_rec_rel y x"
  from set_rec_rel_tail [OF r] show "set_path x \<noteq> []" and "set_path y = tl (set_path x)"
    by simp_all
  from set_rec_rel_tail [OF r] show "Suc (length (set_path y)) = length (set_path x)"
    by (cases "set_path x") simp_all
next
  show "set_rec_dom x" using set_rec_rel_wfp by (rule accp_wfpD)
next
  assume r: "recursiveEqual_rel y' x'"
  from recursiveEqual_rel_tail [OF r] show "equal_path x' \<noteq> []"
    and "equal_path y' = tl (equal_path x')"
    by simp_all
  from recursiveEqual_rel_tail [OF r] show "Suc (length (equal_path y')) = length (equal_path x')"
    by (cases "equal_path x'") simp_all
next
  show "recursiveEqual_dom x'" using recursiveEqual_rel_wfp by (rule accp_wfpD)
qed

theorem recursion_on_tail_terminates_witness:
  "set_rec_rel (decimal_to_number, [Obj [], Obj []], Ref 1, [Key (KStr ''b'')], Num 1, False)
               (decimal_to_number, [Obj []], Ref 0, [Key (KStr ''a''), Key (KStr ''b'')], Num 1, False) \<and>
   set_path (decimal_to_number, [Obj [], Obj []], Ref 1, [Key (KStr ''b'')], Num 1, False)
     = [Key (KStr ''b'')] \<and>
   set_rec_dom (decimal_to_number, [Obj []], Ref 0, [Key (KStr ''a''), Key (KStr ''b'')], Num 1, False) \<and>
   recursiveEqual_rel ([Obj [(''a'', Ref 0)]], Ref 0, [Key (KStr ''b'')], Num 1, None)
                      ([Obj [(''a'', Ref 0)]], Ref 0, [Key (KStr ''a''), Key (KStr ''b'')], Num 1, None) \<and>
   equal_path ([Obj [(''a'', Ref 0)]], Ref 0, [Key (KStr ''b'')], Num 1, None) = [Key (KStr ''b'')] \<and>
   recursiveEqual_dom ([Obj [(''a'', Ref 0)]], Ref 0, [Key (KStr ''a''), Key (KStr ''b'')], Num 1, None)"
proof -
  let ?x = "(decimal_to_number, [Obj []], Ref 0, [Key (KStr ''a''), Key (KStr ''b'')], Num 1, False)"
  let ?y = "(decimal_to_number, [Obj [], Obj []], Ref 1, [Key (KStr ''b'')], Num 1, False)"
  let ?x' = "([Obj [(''a'', Ref 0)]], Ref 0, [Key (KStr ''a''), Key (KStr ''b'')], Num 1,
              None :: (heap \<Rightarrow> val \<Rightarrow> val \<Rightarrow> bool) option)"
  let ?y' = "([Obj [(''a'', Ref 0)]], Ref 0, [Key (KStr ''b'')], Num 1,
              None :: (heap \<Rightarrow> val \<Rightarrow> val \<Rightarrow> bool) option)"
  have cb: "(0, [Obj []]) = current_base [Obj []] (Ref 0) (Key (KStr ''a'')) False" by simp
  have na: "\<not> isArray [Obj []] (Ref 0)" by (simp add: deref_def)
  have nb: "(Ref 1, [Obj [], Obj []])
              = nextBase [Obj []] 0 (KStr ''a'') (next_key [Key (KStr ''b'')]) False"
    by (simp add: nextBase_def get_prop_def deref_def alloc_def)
  have r: "set_rec_rel ?y ?x"
    by (rule set_rec_rel.intros(2) [OF refl cb refl refl na refl refl nb])
  have gp: "get_prop [Obj [(''a'', Ref 0)]] 0 (seg_key (Key (KStr ''a''))) = Ref 0"
    by (simp add: get_prop_def deref_def)
  have r': "recursiveEqual_rel ?y' ?x'"
    using recursiveEqual_rel.intros [of "[Obj [(''a'', Ref 0)]]" 0 "Key (KStr ''a'')" "Key (KStr ''b'')"
        "[]" "Num 1" None]
    unfolding gp .
  from recursion_on_tail_terminates [of ?y ?x ?y' ?x'] r r'
  show ?thesis by (simp add: set_path_def equal_path_def)
qed

section \<open>Failures at the first group segment\<close>

lemma set_rec_key_fail:
  assumes "current_base h base (Key k) wa = (cur, h0)"
    and "nextBase h0 cur k (next_key rest) wa = (nb, h1)"
  shows "fst (set_rec tn h base (Key k # rest) v wa) = Inl e
         \<longleftrightarrow> fst (set_rec tn h1 nb rest v wa) = Inl e"
proof -
  obtain r h2 where rc: "set_rec tn h1 nb rest v wa = (r, h2)"
    by (cases "set_rec tn h1 nb rest v wa")
  show ?thesis
    using assms rc by (cases r) (simp_all add: set_rec.simps return_new_def Let_def)
qed

lemma set_rec_descend:
  "descend h base ks rest wa = (b, h') \<Longrightarrow>
   fst (set_rec tn h base (map Key ks @ rest) v wa) = Inl e
     \<longleftrightarrow> fst (set_rec tn h' b rest v wa) = Inl e"
proof (induction ks arbitrary: h base)
  case Nil
  then show ?case by simp
next
  case (Cons k ks)
  obtain cur h0 where cb: "current_base h base (Key k) wa = (cur, h0)"
    by (cases "current_base h base (Key k) wa")
  obtain nb h1 where nb: "nextBase h0 cur k (next_key (map Key ks @ rest)) wa = (nb, h1)"
    by (cases "nextBase h0 cur k (next_key (map Key ks @ rest)) wa")
  from Cons.prems cb nb have d: "descend h1 nb ks rest wa = (b, h')" by simp
  from set_rec_key_fail [OF cb nb] Cons.IH [OF d] show ?case by simp
qed

lemma descend_same:
  "descend h base ks rest wa = (b, h') \<Longrightarrow> same_upto (length h) h h'"
proof (induction ks arbitrary: h base)
  case Nil
  then show ?case by (simp add: same_upto_refl)
next
  case (Cons k ks)
  obtain cur h0 where cb: "current_base h base (Key k) wa = (cur, h0)"
    by (cases "current_base h base (Key k) wa")
  obtain nb h1 where nb: "nextBase h0 cur k (next_key (map Key ks @ rest)) wa = (nb, h1)"
    by (cases "nextBase h0 cur k (next_key (map Key ks @ rest)) wa")
  from Cons.prems cb nb have d: "descend h1 nb ks rest wa = (b, h')" by simp
  have s0: "same_upto (length h) h h0" using current_base_same [OF cb] by simp
  have s1: "same_upto (length h) h0 h1"
    using nextBase_same [OF nb same_upto_length [OF s0]] .
  have "same_upto (length h) h1 h'"
    using Cons.IH [OF d] same_upto_length [OF s1] by (rule same_upto_mono)
  with s0 s1 show ?case by (blast intro: same_upto_trans)
qed


lemma isArray_same:
  "same_upto (length h) h h' \<Longrightarrow> ref_ok h v \<Longrightarrow> isArray h' v = isArray h v"
  by (cases v) (auto simp: same_upto_def deref_def)

lemma reduce_keys_never_fails:
  "(\<And>k i h. fst (f k i h) = None) \<Longrightarrow> fst (reduce_keys f ks i h) = None"
proof (induction ks arbitrary: i h)
  case Nil
  then show ?case by simp
next
  case (Cons k ks)
  obtain r h1 where f: "f k i h = (r, h1)" by (cases "f k i h")
  with Cons.prems [of k i h] have "r = None" by simp
  with f Cons.IH [OF Cons.prems, of "Suc i" h1] show ?case by simp
qed

lemma set_rec_group_array_fail:
  assumes cb: "current_base h base (Group g) wa = (cur, h0)"
    and arr: "isArray h0 (Ref cur)" and v: "ref_ok h v"
  shows "\<not> isArray h v \<Longrightarrow> fst (set_rec tn h base (Group g # rest) v wa) = Inl ShapeMismatch"
proof -
  assume nv: "\<not> isArray h v"
  have "same_upto (length h) h (h0 @ [Arr (elems h0 cur)])"
    using current_base_same [OF cb, of "length h"]
    by (auto intro: same_upto_trans same_upto_append dest: same_upto_length)
  from isArray_same [OF this v] nv have "\<not> isArray (h0 @ [Arr (elems h0 cur)]) v" by simp
  with cb arr show ?thesis by (simp add: set_rec.simps reduceWithArray_def)
qed

lemma set_rec_terminal_group_array_ok:
  assumes cb: "current_base h base (Group g) wa = (cur, h0)"
    and arr: "isArray h0 (Ref cur)" and v: "ref_ok h v" and av: "isArray h v"
  shows "\<exists>r. fst (set_rec tn h base [Group g] v wa) = Inr r"
proof -
  let ?h1 = "h0 @ [Arr (elems h0 cur)]"
  have "same_upto (length h) h ?h1"
    using current_base_same [OF cb, of "length h"]
    by (auto intro: same_upto_trans same_upto_append dest: same_upto_length)
  from isArray_same [OF this v] av have a1: "isArray ?h1 v" by simp
  from av obtain b where b: "v = Ref b" by (cases v) auto
  let ?step = "\<lambda>key index h.
                  let (nb, h1) = nextBase h cur key None wa in
                  case get_member h1 v (KNum index) of
                    Inl e \<Rightarrow> (Some e, h1)
                  | Inr w \<Rightarrow>
                      (case set_rec tn h1 nb (tl [Group g]) w wa of
                         (Inl e, h2) \<Rightarrow> (Some e, h2)
                       | (Inr newValue, h2) \<Rightarrow>
                           (None, array_store tn h2 (length h0) key newValue))"
  have "fst (?step k i h') = None" for k i h'
    by (cases "nextBase h' cur k None wa") (simp add: b set_rec.simps)
  then have "fst (reduce_keys ?step g 0 ?h1) = None"
    by (rule reduce_keys_never_fails)
  then obtain h' where "reduce_keys ?step g 0 ?h1 = (None, h')"
    by (cases "reduce_keys ?step g 0 ?h1") simp
  with cb arr a1 show ?thesis
    by (simp add: set_rec.simps reduceWithArray_def)
qed

lemma get_member_defined: "\<not> nullish v \<Longrightarrow> \<exists>w. get_member h v k = Inr w"
  by (cases v) (simp_all split: option.splits)

lemma get_member_nullish: "nullish v \<Longrightarrow> get_member h v k = Inl TypeError"
  by (cases v) simp_all

lemma set_rec_terminal_group_object:
  assumes cb: "current_base h base (Group g) wa = (cur, h0)"
    and obj: "\<not> isArray h0 (Ref cur)"
  shows "fst (set_rec tn h base [Group g] v wa) = Inl e \<longleftrightarrow> e = TypeError \<and> g \<noteq> [] \<and> nullish v"
proof -
  let ?step = "\<lambda>key index h.
                let (nb, h1) = nextBase h cur key None wa in
                case get_member h1 v (if isArray h0 v then KNum index else key) of
                  Inl e \<Rightarrow> (Some e, h1)
                | Inr w \<Rightarrow>
                    (case set_rec tn h1 nb (tl [Group g]) w wa of
                       (Inl e, h2) \<Rightarrow> (Some e, h2)
                     | (Inr newValue, h2) \<Rightarrow> (None, object_store h2 (length h0) key newValue))"
  show ?thesis
  proof (cases "nullish v")
    case False
    have "fst (?step k i h') = None" for k i h'
    proof -
      obtain nb h1 where nb: "nextBase h' cur k None wa = (nb, h1)"
        by (cases "nextBase h' cur k None wa")
      from get_member_defined [OF False] obtain w where
        "get_member h1 v (if isArray h0 v then KNum i else k) = Inr w"
        by blast
      with nb show ?thesis by (simp add: set_rec.simps)
    qed
    then have "fst (reduce_keys ?step g 0 (h0 @ [Obj []])) = None"
      by (rule reduce_keys_never_fails)
    then obtain h' where "reduce_keys ?step g 0 (h0 @ [Obj []]) = (None, h')"
      by (cases "reduce_keys ?step g 0 (h0 @ [Obj []])") simp
    with cb obj False show ?thesis
      by (simp add: set_rec.simps reduceWithObject_alt return_new_def)
  next
    case True
    show ?thesis
    proof (cases g)
      case Nil
      with cb obj show ?thesis
        by (simp add: set_rec.simps reduceWithObject_alt return_new_def)
    next
      case (Cons k ks)
      have "\<exists>h'. ?step k 0 (h0 @ [Obj []]) = (Some TypeError, h')"
        using get_member_nullish [OF True]
        by (cases "nextBase (h0 @ [Obj []]) cur k None wa") simp
      then obtain h' where "reduce_keys ?step g 0 (h0 @ [Obj []]) = (Some TypeError, h')"
        using Cons by auto
      with cb obj True Cons show ?thesis
        by (auto simp: set_rec.simps reduceWithObject_alt)
    qed
  qed
qed






lemma set_rec_final_group_fails:
  assumes d: "descend h base ks [Group g] wa = (b, h1)"
    and cb: "current_base h1 b (Group g) wa = (cur, h2)"
    and v: "ref_ok h v"
  shows "fst (set_rec tn h base (map Key ks @ [Group g]) v wa) = Inl e \<longleftrightarrow>
     (e = ShapeMismatch \<and> isArray h2 (Ref cur) \<and> \<not> isArray h v) \<or>
     (e = TypeError \<and> \<not> isArray h2 (Ref cur) \<and> g \<noteq> [] \<and> nullish v)"
proof -
  have s: "same_upto (length h) h h1" using descend_same [OF d] .
  have v1: "ref_ok h1 v" using v same_upto_length [OF s] by (cases v) auto
  have iv: "isArray h1 v = isArray h v" using isArray_same [OF s v] .
  have "fst (set_rec tn h1 b [Group g] v wa) = Inl e \<longleftrightarrow>
     (e = ShapeMismatch \<and> isArray h2 (Ref cur) \<and> \<not> isArray h1 v) \<or>
     (e = TypeError \<and> \<not> isArray h2 (Ref cur) \<and> g \<noteq> [] \<and> nullish v)"
  proof (cases "isArray h2 (Ref cur)")
    case False
    with set_rec_terminal_group_object [OF cb False] show ?thesis by simp
  next
    case True
    show ?thesis
    proof (cases "isArray h1 v")
      case av: True
      from set_rec_terminal_group_array_ok [OF cb True v1 av, of tn] obtain r where
        "fst (set_rec tn h1 b [Group g] v wa) = Inr r" by blast
      with True av show ?thesis by simp
    next
      case nv: False
      from set_rec_group_array_fail [OF cb True v1 nv] True nv show ?thesis by auto
    qed
  qed
  with set_rec_descend [OF d] iv show ?thesis by simp
qed

section \<open>Structural sharing\<close>
























lemma slice_to_num: "n \<le> length xs \<Longrightarrow> slice_to tn xs (KNum n) = take n xs"
  by (simp add: slice_to_def trunc_def)

lemma slice_from_num: "slice_from tn xs (KNum n) = drop (Suc n) xs"
proof -
  have "nat (1 + int n) = Suc n" by simp
  then show ?thesis by (simp add: slice_from_def trunc_def min_def)
qed



























































section \<open>The failures of an update\<close>





















end
